theory Spec2Isabelle
  imports
    Main
    "HOL-Library.Multiset"
    "HOL-Library.Char_ord"
    "HOL-Library.List_Lexorder"
    "HOL-Library.Monad_Syntax"
begin

section \<open>Events and their argument lists (event.go)\<close>

text \<open>
  The Go package defines an \<open>Event\<close> struct, the argument list \<open>Args\<close> (a slice of
  \<open>Arg\<close>), and the operations \<open>Clone\<close>, \<open>Get\<close>, \<open>Map\<close>, \<open>A\<close> and \<open>SortArgs\<close>.

  Two views of the data are used.  Where only contents matter (\<open>Get\<close>, \<open>Map\<close>,
  \<open>A\<close>, \<open>SortArgs\<close>) a Go string is its byte sequence (\<open>string\<close>) and a slice is the
  list of its elements, with the nil slice kept apart.  Where storage matters
  (\<open>Clone\<close>) strings and slices are headers pointing into an explicit heap.
  A panic of the Go runtime is the result \<open>None\<close>.
\<close>

subsection \<open>Data model\<close>

text \<open>
  \<open>type Arg struct { Name string; Value interface{} }\<close>.
  The type parameter \<open>'s\<close> is the representation of Go's \<open>string\<close>.  A value of the
  empty interface is either nil (\<open>None\<close>) or some dynamic value of the opaque type \<open>'v\<close>.
\<close>

record ('s, 'v) Arg =
  Name :: 's
  Value :: "'v option"

text \<open>\<open>type Args []Arg\<close> by contents: \<open>None\<close> is the nil slice.\<close>

type_synonym 'v Args = "(string, 'v) Arg list option"

definition elems :: "'a list option \<Rightarrow> 'a list" where
  "elems s = (case s of None \<Rightarrow> [] | Some xs \<Rightarrow> xs)"

text \<open>Go's built-in \<open>append\<close> with one element, by contents; it never yields nil.\<close>

definition append1 :: "'a list option \<Rightarrow> 'a \<Rightarrow> 'a list option" where
  "append1 s x = Some (elems s @ [x])"

text \<open>
  \<open>map[string]interface{}\<close>: the nil map, or a finite mapping from names to interface
  values.  Reading a nil map behaves like reading an empty one; assigning to an entry of
  a nil map panics.
\<close>

datatype 'v gomap = NilMap | GoMap "string \<rightharpoonup> 'v option"

definition make_map :: "'v gomap" where
  "make_map = GoMap Map.empty"

fun entries :: "'v gomap \<Rightarrow> (string \<rightharpoonup> 'v option)" where
  "entries NilMap = Map.empty"
| "entries (GoMap f) = f"

fun map_assign :: "'v gomap \<Rightarrow> string \<Rightarrow> 'v option \<Rightarrow> 'v gomap option" where
  "map_assign NilMap k v = None"
| "map_assign (GoMap f) k v = Some (GoMap (f(k \<mapsto> v)))"

subsection \<open>Args.Get\<close>

text \<open>
  \<^verbatim>\<open>
  func (args Args) Get(name string) (v interface{}, ok bool) {
      for _, arg := range args {
          if arg.Name == name { v, ok = arg.Value, true; break }
      }
      return
  }
  \<close>
  The named results start as the zero values (nil, false).
\<close>

fun Get_loop :: "(string, 'v) Arg list \<Rightarrow> string \<Rightarrow> 'v option \<times> bool" where
  "Get_loop [] name = (None, False)"
| "Get_loop (arg # rest) name =
     (if Name arg = name then (Value arg, True) else Get_loop rest name)"

definition Get :: "'v Args \<Rightarrow> string \<Rightarrow> 'v option \<times> bool" where
  "Get args name = Get_loop (elems args) name"

subsection \<open>Args.Map\<close>

text \<open>
  \<^verbatim>\<open>
  func (args Args) Map() map[string]interface{} {
      m := make(map[string]interface{})
      for _, arg := range args { m[arg.Name] = arg.Value }
      return m
  }
  \<close>
\<close>

fun Map_loop :: "'v gomap \<Rightarrow> (string, 'v) Arg list \<Rightarrow> 'v gomap option" where
  "Map_loop m [] = Some m"
| "Map_loop m (arg # rest) =
     (case map_assign m (Name arg) (Value arg) of
        None \<Rightarrow> None
      | Some m' \<Rightarrow> Map_loop m' rest)"

definition Map :: "'v Args \<Rightarrow> 'v gomap option" where
  "Map args = Map_loop make_map (elems args)"

subsection \<open>A: an argument list from a map\<close>

text \<open>
  \<^verbatim>\<open>
  func A(m map[string]interface{}) Args {
      args := make(Args, 0, len(m))
      for name, value := range m { args = append(args, Arg{name, value}) }
      return args
  }
  \<close>
  Go leaves the iteration order of \<open>range\<close> over a map to the runtime.  The order is
  the extra argument \<open>ks\<close>: the keys in the order in which this run of the loop visits
  them.  A run visits every key of the map once (\<open>range_order\<close>).  The capacity
  \<open>len(m)\<close> does not show in the contents of the slice.
\<close>

definition range_order :: "'v gomap \<Rightarrow> string list \<Rightarrow> bool" where
  "range_order m ks = (distinct ks \<and> set ks = dom (entries m))"

fun A_loop :: "'v gomap \<Rightarrow> 'v Args \<Rightarrow> string list \<Rightarrow> 'v Args" where
  "A_loop m args [] = args"
| "A_loop m args (name # rest) =
     (case entries m name of
        None \<Rightarrow> A_loop m args rest
      | Some v \<Rightarrow> A_loop m (append1 args \<lparr>Name = name, Value = v\<rparr>) rest)"

definition A :: "string list \<Rightarrow> 'v gomap \<Rightarrow> 'v Args" where
  "A ks m = A_loop m (Some []) ks"

subsection \<open>SortArgs\<close>

text \<open>
  \<^verbatim>\<open>
  func SortArgs(args Args) { sort.Sort(byArgName(args)) }
  type byArgName []Arg
  func (a byArgName) Len() int           { return len(a) }
  func (a byArgName) Less(i, j int) bool { return a[i].Name < a[j].Name }
  func (a byArgName) Swap(i, j int)      { a[i], a[j] = a[j], a[i] }
  \<close>
  The three methods work on the elements of the slice; an index outside the slice
  panics.  Go compares strings byte by byte, lexicographically, which is the order of
  \<open>string\<close> here.  \<open>Swap\<close> writes through to the caller's elements, so it returns them.
\<close>

definition Len :: "(string, 'v) Arg list \<Rightarrow> nat" where
  "Len a = length a"

definition Less :: "(string, 'v) Arg list \<Rightarrow> nat \<Rightarrow> nat \<Rightarrow> bool option" where
  "Less a i j =
     (if i < length a \<and> j < length a then Some (Name (a ! i) < Name (a ! j)) else None)"

definition Swap :: "(string, 'v) Arg list \<Rightarrow> nat \<Rightarrow> nat \<Rightarrow> (string, 'v) Arg list option" where
  "Swap a i j =
     (if i < length a \<and> j < length a then Some (a[i := a ! j, j := a ! i]) else None)"




text \<open>
  Whatever algorithm the library runs, all it does to the data is a sequence of calls
  of \<open>Swap\<close>; \<open>Swaps\<close> runs such a sequence, given by its index pairs.
\<close>

fun Swaps :: "(string, 'v) Arg list \<Rightarrow> (nat \<times> nat) list \<Rightarrow> (string, 'v) Arg list option" where
  "Swaps a [] = Some a"
| "Swaps a ((i, j) # rest) =
     (case Swap a i j of
        None \<Rightarrow> None
      | Some a' \<Rightarrow> Swaps a' rest)"



section \<open>Events in memory (Event.Clone)\<close>

text \<open>
  \<open>Clone\<close> is about storage, so here strings and slices are what the Go runtime makes
  of them: headers that point into a heap.  The heap is the list of the objects
  allocated so far, an address is a position in it, and allocating appends an object.
  An object is either an array of bytes (the data behind strings and \<open>[]byte\<close>) or an
  array of \<open>Arg\<close> structs (the data behind an \<open>Args\<close> slice).  An \<open>Arg\<close> stored in
  an array holds the header of its name and its value; values are opaque and are not
  followed into the heap.
\<close>

type_synonym addr = nat

text \<open>A string header: data pointer (nil only when empty), offset in the object, length.\<close>

record str =
  sptr :: "addr option"
  soff :: nat
  slen :: nat

text \<open>A slice header: data pointer (nil for the nil slice), offset, length, capacity.\<close>

record slice =
  ptr :: "addr option"
  off :: nat
  len :: nat
  cap :: nat

text \<open>
  \<^verbatim>\<open>
  type Event struct {
      Message string; Source string; Args Args; Time time.Time; Debug bool
  }
  \<close>
  \<open>'s\<close> stands for strings, \<open>'a\<close> for the argument list and \<open>'t\<close> for \<open>time.Time\<close>:
  an event in memory is a \<open>(str, slice, 't) Event\<close>, and its contents read out of the heap
  are a \<open>(string, (string, 'v) Arg list, 't) Event\<close>.
\<close>

record ('s, 'a, 't) Event =
  Message :: 's
  Source :: 's
  Args :: 'a
  Time :: 't
  Debug :: bool

datatype 'v obj = Bytes "char list" | Pairs "(str, 'v) Arg list"

type_synonym 'v heap = "'v obj list"

text \<open>The zero values: the empty string, the nil slice, the zero \<open>Arg\<close>.\<close>

definition empty_str :: str where
  "empty_str = \<lparr>sptr = None, soff = 0, slen = 0\<rparr>"

definition nil_slice :: slice where
  "nil_slice = \<lparr>ptr = None, off = 0, len = 0, cap = 0\<rparr>"

definition zero_Arg :: "(str, 'v) Arg" where
  "zero_Arg = \<lparr>Name = empty_str, Value = None\<rparr>"

subsection \<open>Reading the heap\<close>

definition load_Bytes :: "'v heap \<Rightarrow> addr \<Rightarrow> char list option" where
  "load_Bytes h p =
     (if p < length h then (case h ! p of Bytes bs \<Rightarrow> Some bs | Pairs cs \<Rightarrow> None) else None)"

definition load_Pairs :: "'v heap \<Rightarrow> addr \<Rightarrow> (str, 'v) Arg list option" where
  "load_Pairs h p =
     (if p < length h then (case h ! p of Pairs cs \<Rightarrow> Some cs | Bytes bs \<Rightarrow> None) else None)"

text \<open>The bytes of a string, of a byte slice, and the elements of an \<open>Args\<close> slice.\<close>

definition str_bytes :: "'v heap \<Rightarrow> str \<Rightarrow> string option" where
  "str_bytes h s =
     (case sptr s of
        None \<Rightarrow> if slen s = 0 then Some [] else None
      | Some p \<Rightarrow>
          (case load_Bytes h p of
             None \<Rightarrow> None
           | Some bs \<Rightarrow>
               if soff s + slen s \<le> length bs then Some (take (slen s) (drop (soff s) bs))
               else None))"

definition slice_bytes :: "'v heap \<Rightarrow> slice \<Rightarrow> char list option" where
  "slice_bytes h s =
     (case ptr s of
        None \<Rightarrow> if len s = 0 then Some [] else None
      | Some p \<Rightarrow>
          (case load_Bytes h p of
             None \<Rightarrow> None
           | Some bs \<Rightarrow>
               if off s + len s \<le> length bs then Some (take (len s) (drop (off s) bs))
               else None))"

definition slice_Args :: "'v heap \<Rightarrow> slice \<Rightarrow> (str, 'v) Arg list option" where
  "slice_Args h s =
     (case ptr s of
        None \<Rightarrow> if len s = 0 then Some [] else None
      | Some p \<Rightarrow>
          (case load_Pairs h p of
             None \<Rightarrow> None
           | Some cs \<Rightarrow>
               if off s + len s \<le> length cs then Some (take (len s) (drop (off s) cs))
               else None))"

text \<open>
  The contents of an argument list and of an event: names and texts read through their
  headers.  \<open>None\<close> means that some header does not point at data of the heap.
\<close>

fun read_names :: "'v heap \<Rightarrow> (str, 'v) Arg list \<Rightarrow> (string, 'v) Arg list option" where
  "read_names h [] = Some []"
| "read_names h (c # cs) =
     do {
       n \<leftarrow> str_bytes h (Name c);
       rest \<leftarrow> read_names h cs;
       Some (\<lparr>Name = n, Value = Value c\<rparr> # rest)
     }"

definition view_Args :: "'v heap \<Rightarrow> slice \<Rightarrow> (string, 'v) Arg list option" where
  "view_Args h s = do { cs \<leftarrow> slice_Args h s; read_names h cs }"

definition view ::
  "'v heap \<Rightarrow> (str, slice, 't) Event \<Rightarrow> (string, (string, 'v) Arg list, 't) Event option" where
  "view h e =
     do {
       m \<leftarrow> str_bytes h (Message e);
       s \<leftarrow> str_bytes h (Source e);
       as \<leftarrow> view_Args h (Args e);
       Some \<lparr>Message = m, Source = s, Args = as, Time = Time e, Debug = Debug e\<rparr>
     }"

text \<open>
  An event of a running program is valid: its contents can be read, and the capacity of
  its argument slice lies inside the array it points to.
\<close>

definition valid_slice :: "'v heap \<Rightarrow> slice \<Rightarrow> bool" where
  "valid_slice h s =
     (case ptr s of
        None \<Rightarrow> len s = 0 \<and> cap s = 0
      | Some p \<Rightarrow>
          (case load_Pairs h p of
             None \<Rightarrow> False
           | Some cs \<Rightarrow> len s \<le> cap s \<and> off s + cap s \<le> length cs))"

definition valid_Event :: "'v heap \<Rightarrow> (str, slice, 't) Event \<Rightarrow> bool" where
  "valid_Event h e = (view h e \<noteq> None \<and> valid_slice h (Args e))"

subsection \<open>Runtime operations\<close>

text \<open>
  Indexing \<open>s[i]\<close> and assigning to a field of \<open>s[i]\<close>; an index outside the length
  panics.
\<close>

definition index_Args :: "'v heap \<Rightarrow> slice \<Rightarrow> nat \<Rightarrow> (str, 'v) Arg option" where
  "index_Args h s i =
     (if i < len s then
        (case slice_Args h s of None \<Rightarrow> None | Some cs \<Rightarrow> Some (cs ! i))
      else None)"

definition update_Args ::
  "'v heap \<Rightarrow> slice \<Rightarrow> nat \<Rightarrow> ((str, 'v) Arg \<Rightarrow> (str, 'v) Arg) \<Rightarrow> 'v heap option" where
  "update_Args h s i f =
     (if i < len s then
        (case ptr s of
           None \<Rightarrow> None
         | Some p \<Rightarrow>
             (case load_Pairs h p of
                None \<Rightarrow> None
              | Some cs \<Rightarrow>
                  if off s + len s \<le> length cs
                  then Some (h[p := Pairs (cs[off s + i := f (cs ! (off s + i))])])
                  else None))
      else None)"

text \<open>\<open>make([]byte, n)\<close> and \<open>make(Args, n)\<close>: a new zeroed array, length and capacity \<open>n\<close>.\<close>

definition make_bytes :: "nat \<Rightarrow> 'v heap \<Rightarrow> slice \<times> 'v heap" where
  "make_bytes n h =
     (\<lparr>ptr = Some (length h), off = 0, len = n, cap = n\<rparr>, h @ [Bytes (replicate n (CHR 0x00))])"

definition make_Args :: "nat \<Rightarrow> 'v heap \<Rightarrow> slice \<times> 'v heap" where
  "make_Args n h =
     (\<lparr>ptr = Some (length h), off = 0, len = n, cap = n\<rparr>, h @ [Pairs (replicate n zero_Arg)])"

text \<open>
  \<open>copy(dst, src)\<close> from a string into a byte slice: the source is read first, then
  \<open>min(len(dst), len(src))\<close> bytes are written.
\<close>

definition copy_str :: "'v heap \<Rightarrow> slice \<Rightarrow> str \<Rightarrow> 'v heap option" where
  "copy_str h dst src =
     (case str_bytes h src of
        None \<Rightarrow> None
      | Some bs \<Rightarrow>
          (case ptr dst of
             None \<Rightarrow> if len dst = 0 then Some h else None
           | Some p \<Rightarrow>
               (case load_Bytes h p of
                  None \<Rightarrow> None
                | Some old \<Rightarrow>
                    if off dst + len dst \<le> length old
                    then (let n = min (len dst) (length bs)
                          in Some (h[p := Bytes (take (off dst) old @ take n bs
                                                   @ drop (off dst + n) old)]))
                    else None)))"

text \<open>
  The conversion \<open>string(b)\<close> of a byte slice: the empty string for an empty or nil
  slice, otherwise a string on a copy of the bytes (a string never aliases a slice).
\<close>

definition string_of_bytes :: "'v heap \<Rightarrow> slice \<Rightarrow> (str \<times> 'v heap) option" where
  "string_of_bytes h b =
     (if len b = 0 then Some (empty_str, h)
      else (case slice_bytes h b of
              None \<Rightarrow> None
            | Some bs \<Rightarrow>
                Some (\<lparr>sptr = Some (length h), soff = 0, slen = len b\<rparr>, h @ [Bytes bs])))"



subsection \<open>Event.Clone\<close>

text \<open>
  \<^verbatim>\<open>
  func (e *Event) Clone() *Event {
      var a Args
      var m []byte
      var s []byte
      if n := len(e.Args); n != 0 {
          a = make(Args, n)
          for i := range a {
              a[i].Name = e.Args[i].Name
              a[i].Value = cloneValue(e.Args[i].Value)
          }
      }
      if n := len(e.Message); n != 0 { m = make([]byte, n); copy(m, e.Message) }
      if n := len(e.Source); n != 0 { s = make([]byte, n); copy(s, e.Source) }
      return &Event{Message: string(m), Source: string(s), Args: a,
                    Time: e.Time, Debug: e.Debug}
  }
  \<close>
  \<open>cloneValue\<close> is defined in another file of the package; it is a parameter here, a
  function on interface values.  \<open>e\<close> is the struct the receiver points to.  The result
  is the new struct together with the heap after the call.

  \<open>Clone_loop\<close> is the \<open>for\<close> loop over the indices of \<open>a\<close>, \<open>Clone_Args\<close> the first
  \<open>if\<close> block, and \<open>Clone_bytes\<close> the block that the source writes once for
  \<open>Message\<close> and once for \<open>Source\<close>.
\<close>

fun Clone_loop ::
  "('v option \<Rightarrow> 'v option) \<Rightarrow> slice \<Rightarrow> slice \<Rightarrow> nat list \<Rightarrow> 'v heap \<Rightarrow> 'v heap option" where
  "Clone_loop cloneValue src a [] h = Some h"
| "Clone_loop cloneValue src a (i # is) h =
     do {
       x \<leftarrow> index_Args h src i;
       h1 \<leftarrow> update_Args h a i (\<lambda>c. c\<lparr>Name := Name x\<rparr>);
       y \<leftarrow> index_Args h1 src i;
       h2 \<leftarrow> update_Args h1 a i (\<lambda>c. c\<lparr>Value := cloneValue (Value y)\<rparr>);
       Clone_loop cloneValue src a is h2
     }"

definition Clone_Args ::
  "('v option \<Rightarrow> 'v option) \<Rightarrow> slice \<Rightarrow> 'v heap \<Rightarrow> (slice \<times> 'v heap) option" where
  "Clone_Args cloneValue src h =
     (if len src \<noteq> 0 then
        (let (a, h1) = make_Args (len src) h
         in do { h2 \<leftarrow> Clone_loop cloneValue src a [0 ..< len a] h1; Some (a, h2) })
      else Some (nil_slice, h))"

definition Clone_bytes :: "str \<Rightarrow> 'v heap \<Rightarrow> (slice \<times> 'v heap) option" where
  "Clone_bytes s h =
     (if slen s \<noteq> 0 then
        (let (m, h1) = make_bytes (slen s) h
         in do { h2 \<leftarrow> copy_str h1 m s; Some (m, h2) })
      else Some (nil_slice, h))"

definition Clone ::
  "('v option \<Rightarrow> 'v option) \<Rightarrow> (str, slice, 't) Event \<Rightarrow> 'v heap
     \<Rightarrow> ((str, slice, 't) Event \<times> 'v heap) option" where
  "Clone cloneValue e h =
     do {
       (a, h1) \<leftarrow> Clone_Args cloneValue (Args e) h;
       (m, h2) \<leftarrow> Clone_bytes (Message e) h1;
       (s, h3) \<leftarrow> Clone_bytes (Source e) h2;
       (msg, h4) \<leftarrow> string_of_bytes h3 m;
       (src, h5) \<leftarrow> string_of_bytes h4 s;
       Some (\<lparr>Message = msg, Source = src, Args = a, Time = Time e, Debug = Debug e\<rparr>, h5)
     }"

text \<open>What the loop body stores at one index.\<close>

definition clone_Arg :: "('v option \<Rightarrow> 'v option) \<Rightarrow> ('s, 'v) Arg \<Rightarrow> ('s, 'v) Arg" where
  "clone_Arg cloneValue c = \<lparr>Name = Name c, Value = cloneValue (Value c)\<rparr>"

subsection \<open>A sample heap\<close>

text \<open>
  An event whose message and source are two pieces of one buffer, with two arguments
  in an array of capacity three; the name of the second argument lies in the same
  buffer as the message.  \<open>ex_empty\<close> is an event with nothing in it whose fields are
  nevertheless not the zero values.
\<close>

definition ex_heap :: "nat heap" where
  "ex_heap = [Bytes ''hello world'', Bytes ''key'',
     Pairs [\<lparr>Name = \<lparr>sptr = Some 1, soff = 0, slen = 3\<rparr>, Value = Some 7\<rparr>,
            \<lparr>Name = \<lparr>sptr = Some 0, soff = 6, slen = 5\<rparr>, Value = None\<rparr>,
            zero_Arg]]"

definition ex_event :: "(str, slice, nat) Event" where
  "ex_event = \<lparr>Message = \<lparr>sptr = Some 0, soff = 0, slen = 5\<rparr>,
               Source = \<lparr>sptr = Some 0, soff = 6, slen = 5\<rparr>,
               Args = \<lparr>ptr = Some 2, off = 0, len = 2, cap = 3\<rparr>,
               Time = 42, Debug = True\<rparr>"

definition ex_empty :: "(str, slice, nat) Event" where
  "ex_empty = \<lparr>Message = \<lparr>sptr = Some 0, soff = 5, slen = 0\<rparr>,
               Source = empty_str,
               Args = \<lparr>ptr = Some 2, off = 0, len = 0, cap = 3\<rparr>,
               Time = 7, Debug = False\<rparr>"

section \<open>Properties of the argument list operations\<close>

subsection \<open>Get\<close>

lemma Get_loop_none:
  "\<forall>a \<in> set xs. Name a \<noteq> name \<Longrightarrow> Get_loop xs name = (None, False)"
  by (induction xs) auto

lemma Get_loop_first:
  "i < length xs \<Longrightarrow> Name (xs ! i) = name \<Longrightarrow> \<forall>j < i. Name (xs ! j) \<noteq> name
     \<Longrightarrow> Get_loop xs name = (Value (xs ! i), True)"
proof (induction xs arbitrary: i)
  case Nil
  then show ?case by simp
next
  case (Cons x xs)
  show ?case
  proof (cases i)
    case 0
    with Cons.prems show ?thesis by simp
  next
    case (Suc k)
    with Cons.prems have "Name x \<noteq> name" by auto
    moreover have "Get_loop xs name = (Value (xs ! k), True)"
    proof (rule Cons.IH)
      show "k < length xs" using Cons.prems Suc by simp
      show "Name (xs ! k) = name" using Cons.prems Suc by simp
      show "\<forall>j < k. Name (xs ! j) \<noteq> name"
      proof (intro allI impI)
        fix j assume "j < k"
        then have "Suc j < i" using Suc by simp
        with Cons.prems(3) have "Name ((x # xs) ! Suc j) \<noteq> name" by blast
        then show "Name (xs ! j) \<noteq> name" by simp
      qed
    qed
    ultimately show ?thesis using Suc by simp
  qed
qed

lemma Get_loop_found_iff:
  "snd (Get_loop xs name) \<longleftrightarrow> name \<in> Name ` set xs"
  by (induction xs) auto

text \<open>
  Claim C1.  \<open>Get\<close> returns the value of the first argument, in the order of the list,
  whose name is the given one, together with true; when no argument has that name it
  returns the nil value and false.
\<close>

theorem Get_first_match:
  "(\<forall>i < length (elems args).
      Name (elems args ! i) = name \<and> (\<forall>j < i. Name (elems args ! j) \<noteq> name)
        \<longrightarrow> Get args name = (Value (elems args ! i), True))
   \<and> ((\<forall>a \<in> set (elems args). Name a \<noteq> name) \<longrightarrow> Get args name = (None, False))"
  unfolding Get_def using Get_loop_first Get_loop_none by blast

theorem Get_first_match_witness:
  "Get (Some [\<lparr>Name = ''x'', Value = Some (1::nat)\<rparr>, \<lparr>Name = ''y'', Value = Some 2\<rparr>,
              \<lparr>Name = ''x'', Value = Some 3\<rparr>]) ''x'' = (Some 1, True)
   \<and> Get (Some [\<lparr>Name = ''y'', Value = Some (2::nat)\<rparr>, \<lparr>Name = ''x'', Value = Some 3\<rparr>]) ''x''
       = (Some 3, True)
   \<and> Get (Some ([] :: (string, nat) Arg list)) ''x'' = (None, False)
   \<and> Get (None :: nat Args) ''x'' = (None, False)"
proof -
  let ?xs = "[\<lparr>Name = ''x'', Value = Some (1::nat)\<rparr>, \<lparr>Name = ''y'', Value = Some 2\<rparr>,
              \<lparr>Name = ''x'', Value = Some 3\<rparr>]"
  let ?ys = "[\<lparr>Name = ''y'', Value = Some (2::nat)\<rparr>, \<lparr>Name = ''x'', Value = Some 3\<rparr>]"
  have a: "Get (Some ?xs) ''x'' = (Value (elems (Some ?xs) ! 0), True)"
    using Get_first_match [of "Some ?xs" "''x''", THEN conjunct1, rule_format, of 0]
    by (simp add: elems_def)
  have b: "Get (Some ?ys) ''x'' = (Value (elems (Some ?ys) ! 1), True)"
    using Get_first_match [of "Some ?ys" "''x''", THEN conjunct1, rule_format, of 1]
    by (simp add: elems_def)
  have c: "Get (Some ([] :: (string, nat) Arg list)) ''x'' = (None, False)"
    using Get_first_match [of "Some ([] :: (string, nat) Arg list)" "''x''", THEN conjunct2]
    by (simp add: elems_def)
  have d: "Get (None :: nat Args) ''x'' = (None, False)"
    using Get_first_match [of "None :: nat Args" "''x''", THEN conjunct2]
    by (simp add: elems_def)
  from a b c d show ?thesis by (simp add: elems_def)
qed

subsection \<open>Map\<close>

lemma Map_loop_total: "\<exists>g. Map_loop (GoMap f) xs = Some (GoMap g)"
  by (induction xs arbitrary: f) auto

lemma Map_loop_other:
  "Map_loop (GoMap f) xs = Some (GoMap g) \<Longrightarrow> k \<notin> Name ` set xs \<Longrightarrow> g k = f k"
  by (induction xs arbitrary: f) auto

lemma Map_loop_dom:
  "Map_loop (GoMap f) xs = Some (GoMap g) \<Longrightarrow> dom g = dom f \<union> Name ` set xs"
  by (induction xs arbitrary: f) auto

lemma Map_loop_last:
  "Map_loop (GoMap f) xs = Some (GoMap g) \<Longrightarrow> i < length xs
     \<Longrightarrow> \<forall>j. i < j \<and> j < length xs \<longrightarrow> Name (xs ! j) \<noteq> Name (xs ! i)
     \<Longrightarrow> g (Name (xs ! i)) = Some (Value (xs ! i))"
proof (induction xs arbitrary: f i)
  case Nil
  then show ?case by simp
next
  case (Cons x xs)
  from Cons.prems(1) have run: "Map_loop (GoMap (f(Name x \<mapsto> Value x))) xs = Some (GoMap g)"
    by simp
  show ?case
  proof (cases i)
    case 0
    have "Name x \<notin> Name ` set xs"
    proof
      assume "Name x \<in> Name ` set xs"
      then obtain j where j: "j < length xs" "Name (xs ! j) = Name x"
        by (auto simp: in_set_conv_nth)
      with Cons.prems(3) 0 have "Name ((x # xs) ! Suc j) \<noteq> Name ((x # xs) ! 0)"
        by (metis length_Cons Suc_less_eq zero_less_Suc)
      with j show False by simp
    qed
    with run have "g (Name x) = (f(Name x \<mapsto> Value x)) (Name x)"
      by (rule Map_loop_other)
    with 0 show ?thesis by simp
  next
    case (Suc k)
    have "g (Name (xs ! k)) = Some (Value (xs ! k))"
    proof (rule Cons.IH [OF run])
      show "k < length xs" using Cons.prems(2) Suc by simp
      show "\<forall>j. k < j \<and> j < length xs \<longrightarrow> Name (xs ! j) \<noteq> Name (xs ! k)"
      proof (intro allI impI)
        fix j assume "k < j \<and> j < length xs"
        then have "i < Suc j \<and> Suc j < length (x # xs)" using Suc by simp
        with Cons.prems(3) have "Name ((x # xs) ! Suc j) \<noteq> Name ((x # xs) ! i)" by blast
        then show "Name (xs ! j) \<noteq> Name (xs ! k)" using Suc by simp
      qed
    qed
    with Suc show ?thesis by simp
  qed
qed

text \<open>
  Claim C2.  \<open>Map\<close> returns a map, never nil, whose keys are the names that occur in
  the list and which binds each name to the value of its last occurrence: the entry at
  index \<open>i\<close> gives the value of its name when no later entry has that name.  For an
  empty or nil list the map is empty.  \<open>Map\<close> only reads the list: the model returns
  the map and no new list, unlike \<open>SortArgs\<close>.
\<close>

theorem Map_last_match:
  "\<exists>g. Map args = Some (GoMap g)
     \<and> dom g = Name ` set (elems args)
     \<and> (\<forall>i < length (elems args).
          (\<forall>j. i < j \<and> j < length (elems args) \<longrightarrow> Name (elems args ! j) \<noteq> Name (elems args ! i))
            \<longrightarrow> g (Name (elems args ! i)) = Some (Value (elems args ! i)))
     \<and> (elems args = [] \<longrightarrow> g = Map.empty)"
proof -
  obtain g where g: "Map_loop (GoMap Map.empty) (elems args) = Some (GoMap g)"
    using Map_loop_total by blast
  have "dom g = Name ` set (elems args)"
    using Map_loop_dom [OF g] by simp
  moreover have "\<forall>i < length (elems args).
          (\<forall>j. i < j \<and> j < length (elems args) \<longrightarrow> Name (elems args ! j) \<noteq> Name (elems args ! i))
            \<longrightarrow> g (Name (elems args ! i)) = Some (Value (elems args ! i))"
    using Map_loop_last [OF g] by blast
  moreover have "elems args = [] \<longrightarrow> g = Map.empty"
    using g by auto
  ultimately show ?thesis
    using g by (simp add: Map_def make_map_def)
qed

theorem Map_last_match_witness:
  "\<exists>g. Map (Some [\<lparr>Name = ''x'', Value = Some (1::nat)\<rparr>, \<lparr>Name = ''y'', Value = Some 2\<rparr>,
                   \<lparr>Name = ''x'', Value = Some 3\<rparr>]) = Some (GoMap g)
       \<and> dom g = {''x'', ''y''} \<and> g ''x'' = Some (Some 3) \<and> g ''y'' = Some (Some 2)"
proof -
  let ?xs = "[\<lparr>Name = ''x'', Value = Some (1::nat)\<rparr>, \<lparr>Name = ''y'', Value = Some 2\<rparr>,
              \<lparr>Name = ''x'', Value = Some 3\<rparr>]"
  have e: "elems (Some ?xs) = ?xs" by (simp add: elems_def)
  obtain g where g: "Map (Some ?xs) = Some (GoMap g)"
      "dom g = Name ` set ?xs"
      "\<forall>i < length ?xs.
          (\<forall>j. i < j \<and> j < length ?xs \<longrightarrow> Name (?xs ! j) \<noteq> Name (?xs ! i))
            \<longrightarrow> g (Name (?xs ! i)) = Some (Value (?xs ! i))"
    using Map_last_match [of "Some ?xs"] unfolding e by blast
  have p2: "\<forall>j. 2 < j \<and> j < length ?xs \<longrightarrow> Name (?xs ! j) \<noteq> Name (?xs ! 2)"
    by simp
  have p1: "\<forall>j. 1 < j \<and> j < length ?xs \<longrightarrow> Name (?xs ! j) \<noteq> Name (?xs ! 1)"
    by (auto simp: less_Suc_eq)
  have "g (Name (?xs ! 2)) = Some (Value (?xs ! 2))"
    using g(3) p2 by (metis length_Cons lessI list.size(3) numeral_2_eq_2)
  then have x: "g ''x'' = Some (Some 3)" by simp
  have "g (Name (?xs ! 1)) = Some (Value (?xs ! 1))"
    using g(3) p1 by (metis One_nat_def length_Cons lessI less_SucI list.size(3))
  then have y: "g ''y'' = Some (Some 2)" by simp
  have "dom g = {''x'', ''y''}" using g(2) by auto
  with g(1) x y show ?thesis by blast
qed

subsection \<open>Get and Map agree on presence\<close>

text \<open>
  Claim C10.  \<open>Get\<close> reports a name as found exactly when the name is a key of the
  map that \<open>Map\<close> returns for the same list.
\<close>

theorem Get_found_iff_Map_key:
  "\<exists>g. Map args = Some (GoMap g) \<and> (snd (Get args n) \<longleftrightarrow> n \<in> dom g)"
proof -
  obtain g where g: "Map_loop (GoMap Map.empty) (elems args) = Some (GoMap g)"
    using Map_loop_total by blast
  have "dom g = Name ` set (elems args)"
    using Map_loop_dom [OF g] by simp
  then have "snd (Get args n) \<longleftrightarrow> n \<in> dom g"
    by (simp add: Get_def Get_loop_found_iff)
  with g show ?thesis by (simp add: Map_def make_map_def)
qed



theorem Get_found_iff_Map_key_witness:
  "\<exists>g. Map (Some [\<lparr>Name = ''x'', Value = Some (1::nat)\<rparr>, \<lparr>Name = ''x'', Value = None\<rparr>])
         = Some (GoMap g)
       \<and> snd (Get (Some [\<lparr>Name = ''x'', Value = Some (1::nat)\<rparr>, \<lparr>Name = ''x'', Value = None\<rparr>]) ''x'')
       \<and> ''x'' \<in> dom g
       \<and> \<not> snd (Get (Some [\<lparr>Name = ''x'', Value = Some (1::nat)\<rparr>, \<lparr>Name = ''x'', Value = None\<rparr>]) ''y'')"
proof -
  let ?xs = "Some [\<lparr>Name = ''x'', Value = Some (1::nat)\<rparr>, \<lparr>Name = ''x'', Value = None\<rparr>]"
  from Get_found_iff_Map_key [of ?xs "''x''"] obtain g where
    g: "Map ?xs = Some (GoMap g)" "snd (Get ?xs ''x'') \<longleftrightarrow> ''x'' \<in> dom g"
    by (elim exE conjE)
  have "snd (Get ?xs ''x'')" by (simp add: Get_def elems_def)
  moreover have "\<not> snd (Get ?xs ''y'')" by (simp add: Get_def elems_def)
  ultimately show ?thesis using g by blast
qed

subsection \<open>A, and the round trip through a map\<close>


lemma A_loop_keys:
  "set ks \<subseteq> dom (entries m) \<Longrightarrow>
     A_loop m (Some xs) ks = Some (xs @ map (\<lambda>k. \<lparr>Name = k, Value = the (entries m k)\<rparr>) ks)"
  by (induction ks arbitrary: xs) (auto simp: append1_def elems_def)

text \<open>
  Claim C8.  For a map \<open>m\<close> and any order \<open>ks\<close> in which \<open>range\<close> visits its keys,
  \<open>A\<close> returns a slice that is not nil, with one entry per key of \<open>m\<close>: its length is
  the number of keys, the names are the keys without repetition, and each entry holds
  the value that \<open>m\<close> has for its name.  The entries come in the order of the visit,
  whatever that is.  For a map without keys the slice is empty.
\<close>

theorem A_one_entry_per_key:
  "range_order m ks \<Longrightarrow>
     \<exists>xs. A ks m = Some xs
        \<and> length xs = card (dom (entries m))
        \<and> distinct (map Name xs)
        \<and> Name ` set xs = dom (entries m)
        \<and> (\<forall>a \<in> set xs. entries m (Name a) = Some (Value a))
        \<and> map Name xs = ks
        \<and> (dom (entries m) = {} \<longrightarrow> xs = [])"
proof -
  assume r: "range_order m ks"
  then have d: "distinct ks" and s: "set ks = dom (entries m)"
    by (simp_all add: range_order_def)
  let ?xs = "map (\<lambda>k. \<lparr>Name = k, Value = the (entries m k)\<rparr>) ks"
  have a: "A ks m = Some ?xs"
    using A_loop_keys [of ks m "[]"] s by (simp add: A_def)
  have n: "map Name ?xs = ks" by (simp add: comp_def)
  have "length ?xs = card (dom (entries m))"
    using d s distinct_card [of ks] by simp
  moreover have "distinct (map Name ?xs)" using d n by simp
  moreover have "Name ` set ?xs = dom (entries m)" using s by (auto simp: image_iff)
  moreover have "\<forall>a \<in> set ?xs. entries m (Name a) = Some (Value a)" using s by auto
  moreover have "dom (entries m) = {} \<longrightarrow> ?xs = []" using s by auto
  ultimately show ?thesis using a n by blast
qed

lemma Map_loop_build:
  "Map_loop (GoMap g) (map (\<lambda>k. \<lparr>Name = k, Value = the (f k)\<rparr>) ks)
     = Some (GoMap (\<lambda>k. if k \<in> set ks then Some (the (f k)) else g k))"
proof (induction ks arbitrary: g)
  case Nil
  show ?case by simp
next
  case (Cons k ks)
  let ?mk = "\<lambda>k. \<lparr>Name = k, Value = the (f k)\<rparr>"
  have e: "(\<lambda>x. if x \<in> set ks then Some (the (f x)) else (g(k \<mapsto> the (f k))) x)
        = (\<lambda>x. if x \<in> set (k # ks) then Some (the (f x)) else g x)"
    by (rule ext) simp
  have "Map_loop (GoMap g) (map ?mk (k # ks)) = Map_loop (GoMap (g(k \<mapsto> the (f k)))) (map ?mk ks)"
    by simp
  also have "\<dots> = Some (GoMap (\<lambda>x. if x \<in> set ks then Some (the (f x)) else (g(k \<mapsto> the (f k))) x))"
    by (rule Cons.IH)
  finally show ?case unfolding e .
qed

text \<open>
  Claim C3.  For a map \<open>m\<close> and any order in which its keys are visited, the map of
  the list built from \<open>m\<close> has exactly the entries of \<open>m\<close>.
\<close>

theorem Map_of_A_roundtrip:
  "range_order m ks \<Longrightarrow> Map (A ks m) = Some (GoMap (entries m))"
proof -
  assume r: "range_order m ks"
  then have s: "set ks = dom (entries m)" by (simp add: range_order_def)
  let ?xs = "map (\<lambda>k. \<lparr>Name = k, Value = the (entries m k)\<rparr>) ks"
  have a: "A ks m = Some ?xs"
    using A_loop_keys [of ks m "[]"] s by (simp add: A_def)
  have "(\<lambda>k. if k \<in> set ks then Some (the (entries m k)) else None) = entries m"
  proof (rule ext)
    fix k show "(if k \<in> set ks then Some (the (entries m k)) else None) = entries m k"
      using s by (cases "entries m k") auto
  qed
  then show ?thesis
    using a Map_loop_build [of Map.empty "entries m" ks]
    by (simp add: Map_def make_map_def elems_def)
qed


theorem A_one_entry_per_key_witness:
  "\<exists>xs. A [''b'', ''a''] (GoMap [''a'' \<mapsto> Some (1::nat), ''b'' \<mapsto> None]) = Some xs
      \<and> length xs = 2 \<and> map Name xs = [''b'', ''a'']
      \<and> (\<forall>a \<in> set xs. [''a'' \<mapsto> Some (1::nat), ''b'' \<mapsto> None] (Name a) = Some (Value a))"
proof -
  let ?f = "[''a'' \<mapsto> Some (1::nat), ''b'' \<mapsto> None]"
  have dm: "dom ?f = {''a'', ''b''}" by auto
  have r: "range_order (GoMap ?f) [''b'', ''a'']"
    unfolding range_order_def entries.simps dm by auto
  have c: "card (dom ?f) = 2" unfolding dm by simp
  from A_one_entry_per_key [OF r] show ?thesis
    unfolding entries.simps c by (elim exE conjE, intro exI conjI) assumption+
qed

theorem Map_of_A_roundtrip_witness:
  "Map (A [''c'', ''a'', ''b'']
          (GoMap [''a'' \<mapsto> Some (1::nat), ''b'' \<mapsto> Some 2, ''c'' \<mapsto> Some 3]))
     = Some (GoMap [''a'' \<mapsto> Some (1::nat), ''b'' \<mapsto> Some 2, ''c'' \<mapsto> Some 3])"
proof -
  let ?f = "[''a'' \<mapsto> Some (1::nat), ''b'' \<mapsto> Some 2, ''c'' \<mapsto> Some 3]"
  have dm: "dom ?f = {''a'', ''b'', ''c''}" by auto
  have r: "range_order (GoMap ?f) [''c'', ''a'', ''b'']"
    unfolding range_order_def entries.simps dm by auto
  from Map_of_A_roundtrip [OF r] show ?thesis by simp
qed

subsection \<open>SortArgs\<close>

text \<open>
  Facts that hold for every algorithm behind \<open>sort.Sort\<close>: calls of \<open>Swap\<close> keep
  the multiset of entries, and a slice on which \<open>Less\<close> never puts a later entry
  before an earlier one has its names in ascending order.
\<close>

lemma Swap_mset: "Swap a i j = Some b \<Longrightarrow> mset b = mset a"
  by (auto simp: Swap_def mset_swap split: if_splits)

lemma Swap_length: "Swap a i j = Some b \<Longrightarrow> length b = length a"
  by (auto simp: Swap_def split: if_splits)

lemma Less_sorted:
  assumes "\<forall>i j. i < j \<and> j < Len a \<longrightarrow> Less a j i = Some False"
  shows "sorted (map Name a)"
proof -
  have "Name (a ! i) \<le> Name (a ! j)" if "i < j" "j < length a" for i j
  proof -
    from that assms have "Less a j i = Some False" by (simp add: Len_def)
    with that show ?thesis by (simp add: Less_def not_less split: if_splits)
  qed
  then show ?thesis by (simp add: sorted_iff_nth_mono_less)
qed

lemma Swaps_mset: "Swaps a ps = Some b \<Longrightarrow> mset b = mset a"
proof (induction ps arbitrary: a)
  case Nil
  then show ?case by simp
next
  case (Cons p ps)
  obtain i j where p: "p = (i, j)" by (cases p)
  from Cons.prems p obtain a' where s: "Swap a i j = Some a'" and r: "Swaps a' ps = Some b"
    by (auto split: option.splits)
  from Cons.IH [OF r] Swap_mset [OF s] show ?case by simp
qed

lemma sorted_by_swaps:
  assumes "Swaps a ps = Some b"
      and "\<forall>i j. i < j \<and> j < Len b \<longrightarrow> Less b j i = Some False"
  shows "sorted (map Name b) \<and> mset b = mset a"
  using assms Swaps_mset Less_sorted by blast











section \<open>Properties of Event.Clone\<close>

subsection \<open>Reading a heap that has grown\<close>


lemma load_Bytes_Some: "load_Bytes h p = Some bs \<longleftrightarrow> p < length h \<and> h ! p = Bytes bs"
  by (auto simp: load_Bytes_def split: obj.splits)

lemma load_Pairs_Some: "load_Pairs h p = Some cs \<longleftrightarrow> p < length h \<and> h ! p = Pairs cs"
  by (auto simp: load_Pairs_def split: obj.splits)

lemma load_Bytes_append: "p < length h \<Longrightarrow> load_Bytes (h @ ext) p = load_Bytes h p"
  by (simp add: load_Bytes_def nth_append)

lemma load_Pairs_append: "p < length h \<Longrightarrow> load_Pairs (h @ ext) p = load_Pairs h p"
  by (simp add: load_Pairs_def nth_append)

lemma load_Bytes_fresh: "load_Bytes (h @ [Bytes bs]) (length h) = Some bs"
  by (simp add: load_Bytes_def)

lemma load_Pairs_fresh: "load_Pairs (h @ [Pairs cs]) (length h) = Some cs"
  by (simp add: load_Pairs_def)

lemma load_Bytes_lt: "load_Bytes h p = Some bs \<Longrightarrow> p < length h"
  by (simp add: load_Bytes_def split: if_splits)

lemma load_Pairs_lt: "load_Pairs h p = Some cs \<Longrightarrow> p < length h"
  by (simp add: load_Pairs_def split: if_splits)

lemma str_bytes_append: "str_bytes h s = Some bs \<Longrightarrow> str_bytes (h @ ext) s = Some bs"
proof (cases "sptr s")
  case None
  then show "str_bytes h s = Some bs \<Longrightarrow> ?thesis" by (simp add: str_bytes_def)
next
  case (Some p)
  assume a: "str_bytes h s = Some bs"
  then obtain xs where "load_Bytes h p = Some xs"
    using Some by (auto simp: str_bytes_def split: option.splits)
  then have "load_Bytes (h @ ext) p = load_Bytes h p"
    using load_Bytes_lt load_Bytes_append by blast
  with a Some show ?thesis by (simp add: str_bytes_def)
qed

lemma slice_Args_append: "slice_Args h s = Some cs \<Longrightarrow> slice_Args (h @ ext) s = Some cs"
proof (cases "ptr s")
  case None
  then show "slice_Args h s = Some cs \<Longrightarrow> ?thesis" by (simp add: slice_Args_def)
next
  case (Some p)
  assume a: "slice_Args h s = Some cs"
  then obtain xs where "load_Pairs h p = Some xs"
    using Some by (auto simp: slice_Args_def split: option.splits)
  then have "load_Pairs (h @ ext) p = load_Pairs h p"
    using load_Pairs_lt load_Pairs_append by blast
  with a Some show ?thesis by (simp add: slice_Args_def)
qed

lemma slice_Args_length: "slice_Args h s = Some cs \<Longrightarrow> length cs = len s"
  by (auto simp: slice_Args_def split: option.splits if_splits)

lemma str_bytes_length: "str_bytes h s = Some bs \<Longrightarrow> length bs = slen s"
  by (auto simp: str_bytes_def split: option.splits if_splits)

lemma read_names_append: "read_names h cs = Some ns \<Longrightarrow> read_names (h @ ext) cs = Some ns"
  by (induction cs arbitrary: ns) (auto simp: str_bytes_append split: Option.bind_splits)

lemma view_Args_append: "view_Args h s = Some as \<Longrightarrow> view_Args (h @ ext) s = Some as"
  by (auto simp: view_Args_def slice_Args_append read_names_append split: Option.bind_splits)

lemma view_append: "view h e = Some v \<Longrightarrow> view (h @ ext) e = Some v"
  by (auto simp: view_def str_bytes_append view_Args_append split: Option.bind_splits)


subsection \<open>The steps of Clone\<close>


lemma index_Args_ext:
  "slice_Args h src = Some cs \<Longrightarrow> k < length cs \<Longrightarrow> index_Args (h @ ext) src k = Some (cs ! k)"
  using slice_Args_append [of h src cs ext] slice_Args_length [of h src cs]
  by (simp add: index_Args_def)

lemma update_Args_fresh:
  "k < n \<Longrightarrow> n \<le> length ys \<Longrightarrow>
     update_Args (h @ [Pairs ys]) \<lparr>ptr = Some (length h), off = 0, len = n, cap = n\<rparr> k f
       = Some (h @ [Pairs (ys[k := f (ys ! k)])])"
  by (simp add: update_Args_def load_Pairs_fresh)

lemma Arg_update_both:
  fixes r :: "('s, 'v) Arg"
  shows "r\<lparr>Name := n, Value := v\<rparr> = \<lparr>Name = n, Value = v\<rparr>"
  by (cases r) simp

lemma Clone_loop_step:
  assumes src: "slice_Args h src = Some cs" and k: "k < length cs" and ys: "length ys = length cs"
  shows "Clone_loop cv src \<lparr>ptr = Some (length h), off = 0, len = length cs, cap = length cs\<rparr>
            (k # is) (h @ [Pairs ys])
         = Clone_loop cv src \<lparr>ptr = Some (length h), off = 0, len = length cs, cap = length cs\<rparr>
            is (h @ [Pairs (ys[k := clone_Arg cv (cs ! k)])])"
proof -
  let ?a = "\<lparr>ptr = Some (length h), off = 0, len = length cs, cap = length cs\<rparr>"
  let ?ys1 = "ys[k := (ys ! k)\<lparr>Name := Name (cs ! k)\<rparr>]"
  have i1: "index_Args (h @ [Pairs ys]) src k = Some (cs ! k)"
    using src k by (rule index_Args_ext)
  have u1: "update_Args (h @ [Pairs ys]) ?a k (\<lambda>c. c\<lparr>Name := Name (cs ! k)\<rparr>)
              = Some (h @ [Pairs ?ys1])"
    using k ys by (simp add: update_Args_fresh)
  have i2: "index_Args (h @ [Pairs ?ys1]) src k = Some (cs ! k)"
    using src k by (rule index_Args_ext)
  have u2: "update_Args (h @ [Pairs ?ys1]) ?a k (\<lambda>c. c\<lparr>Value := cv (Value (cs ! k))\<rparr>)
              = Some (h @ [Pairs (?ys1[k := (?ys1 ! k)\<lparr>Value := cv (Value (cs ! k))\<rparr>])])"
    using k ys by (simp add: update_Args_fresh)
  have "?ys1[k := (?ys1 ! k)\<lparr>Value := cv (Value (cs ! k))\<rparr>] = ys[k := clone_Arg cv (cs ! k)]"
    using k ys by (simp add: clone_Arg_def Arg_update_both)
  with i1 u1 i2 u2 show ?thesis by simp
qed

lemma Clone_loop_fill:
  assumes src: "slice_Args h src = Some cs"
  shows "k \<le> length cs \<Longrightarrow> length ys = length cs \<Longrightarrow>
         Clone_loop cv src \<lparr>ptr = Some (length h), off = 0, len = length cs, cap = length cs\<rparr>
            [k ..< length cs] (h @ [Pairs ys])
         = Some (h @ [Pairs (take k ys @ map (clone_Arg cv) (drop k cs))])"
proof (induction "length cs - k" arbitrary: k ys)
  case 0
  then show ?case by simp
next
  case (Suc d)
  then have k: "k < length cs" by simp
  let ?ys = "ys[k := clone_Arg cv (cs ! k)]"
  have up: "[k ..< length cs] = k # [Suc k ..< length cs]"
    using k by (simp add: upt_conv_Cons)
  have "Clone_loop cv src \<lparr>ptr = Some (length h), off = 0, len = length cs, cap = length cs\<rparr>
            [Suc k ..< length cs] (h @ [Pairs ?ys])
         = Some (h @ [Pairs (take (Suc k) ?ys @ map (clone_Arg cv) (drop (Suc k) cs))])"
    using Suc.hyps(2) k Suc.prems(2) by (intro Suc.hyps(1)) simp_all
  moreover have "take (Suc k) ?ys @ map (clone_Arg cv) (drop (Suc k) cs)
                   = take k ys @ map (clone_Arg cv) (drop k cs)"
    using k Suc.prems(2)
    by (simp add: take_Suc_conv_app_nth Cons_nth_drop_Suc [symmetric])
  ultimately show ?case
    unfolding up using Clone_loop_step [OF src k Suc.prems(2)] by simp
qed

lemma Clone_Args_result:
  assumes "slice_Args h src = Some cs"
  shows "Clone_Args cv src h =
           Some (if cs = [] then (nil_slice, h)
                 else (\<lparr>ptr = Some (length h), off = 0, len = length cs, cap = length cs\<rparr>,
                       h @ [Pairs (map (clone_Arg cv) cs)]))"
proof -
  have l: "len src = length cs" using assms by (simp add: slice_Args_length)
  show ?thesis
  proof (cases "cs = []")
    case True
    with l show ?thesis by (simp add: Clone_Args_def)
  next
    case False
    have "Clone_loop cv src \<lparr>ptr = Some (length h), off = 0, len = length cs, cap = length cs\<rparr>
            [0 ..< length cs] (h @ [Pairs (replicate (length cs) zero_Arg)])
          = Some (h @ [Pairs (map (clone_Arg cv) cs)])"
      using Clone_loop_fill [OF assms, of 0 "replicate (length cs) zero_Arg" cv] by simp
    with False l show ?thesis by (simp add: Clone_Args_def make_Args_def)
  qed
qed

lemma copy_str_fresh:
  assumes "str_bytes h s = Some bs"
  shows "copy_str (h @ [Bytes (replicate (length bs) z)])
           \<lparr>ptr = Some (length h), off = 0, len = length bs, cap = length bs\<rparr> s
         = Some (h @ [Bytes bs])"
  using str_bytes_append [OF assms, of "[Bytes (replicate (length bs) z)]"]
  by (simp add: copy_str_def load_Bytes_fresh)

lemma Clone_bytes_result:
  assumes "str_bytes h s = Some bs"
  shows "Clone_bytes s h =
           Some (if bs = [] then (nil_slice, h)
                 else (\<lparr>ptr = Some (length h), off = 0, len = length bs, cap = length bs\<rparr>,
                       h @ [Bytes bs]))"
proof -
  have l: "slen s = length bs" using assms by (simp add: str_bytes_length)
  show ?thesis
  proof (cases "bs = []")
    case True
    with l show ?thesis by (simp add: Clone_bytes_def)
  next
    case False
    with l copy_str_fresh [OF assms] show ?thesis
      by (simp add: Clone_bytes_def make_bytes_def)
  qed
qed

lemma string_of_bytes_nil: "string_of_bytes h nil_slice = Some (empty_str, h)"
  by (simp add: string_of_bytes_def nil_slice_def)

lemma string_of_bytes_whole:
  "p < length h \<Longrightarrow> h ! p = Bytes bs \<Longrightarrow> bs \<noteq> [] \<Longrightarrow>
     string_of_bytes h \<lparr>ptr = Some p, off = 0, len = length bs, cap = length bs\<rparr>
       = Some (\<lparr>sptr = Some (length h), soff = 0, slen = length bs\<rparr>, h @ [Bytes bs])"
  by (simp add: string_of_bytes_def slice_bytes_def load_Bytes_def)



lemma Clone_closed_form:
  assumes m: "str_bytes h (Message e) = Some mb"
      and s: "str_bytes h (Source e) = Some sb"
      and a: "slice_Args h (Args e) = Some cs"
  shows "Clone cv e h =
     Some (\<lparr>Message = (if mb = [] then empty_str
                        else \<lparr>sptr = Some (length h + (if cs = [] then 0 else 1)
                                               + (if mb = [] then 0 else 1)
                                               + (if sb = [] then 0 else 1)),
                              soff = 0, slen = length mb\<rparr>),
            Source = (if sb = [] then empty_str
                       else \<lparr>sptr = Some (length h + (if cs = [] then 0 else 1)
                                              + (if mb = [] then 0 else 1)
                                              + (if sb = [] then 0 else 1)
                                              + (if mb = [] then 0 else 1)),
                             soff = 0, slen = length sb\<rparr>),
            Args = (if cs = [] then nil_slice
                     else \<lparr>ptr = Some (length h), off = 0, len = length cs, cap = length cs\<rparr>),
            Time = Time e, Debug = Debug e\<rparr>,
           h @ (if cs = [] then [] else [Pairs (map (clone_Arg cv) cs)])
             @ (if mb = [] then [] else [Bytes mb])
             @ (if sb = [] then [] else [Bytes sb])
             @ (if mb = [] then [] else [Bytes mb])
             @ (if sb = [] then [] else [Bytes sb]))"
proof -
  define A where "A = (if cs = [] then [] else [Pairs (map (clone_Arg cv) cs)])"
  define M :: "'a obj list" where "M = (if mb = [] then [] else [Bytes mb])"
  define S :: "'a obj list" where "S = (if sb = [] then [] else [Bytes sb])"
  define sa where "sa = (if cs = [] then nil_slice
                     else \<lparr>ptr = Some (length h), off = 0, len = length cs, cap = length cs\<rparr>)"
  define sm where "sm = (if mb = [] then nil_slice
                     else \<lparr>ptr = Some (length (h @ A)), off = 0, len = length mb, cap = length mb\<rparr>)"
  define ss where "ss = (if sb = [] then nil_slice
                     else \<lparr>ptr = Some (length (h @ A @ M)), off = 0, len = length sb, cap = length sb\<rparr>)"
  have 1: "Clone_Args cv (Args e) h = Some (sa, h @ A)"
    using Clone_Args_result [OF a, of cv] by (simp add: sa_def A_def)
  have "str_bytes (h @ A) (Message e) = Some mb" using m by (rule str_bytes_append)
  from Clone_bytes_result [OF this]
  have 2: "Clone_bytes (Message e) (h @ A) = Some (sm, h @ A @ M)"
    by (simp add: sm_def M_def)
  have "str_bytes (h @ A @ M) (Source e) = Some sb"
    using str_bytes_append [OF s, of "A @ M"] by simp
  from Clone_bytes_result [OF this]
  have 3: "Clone_bytes (Source e) (h @ A @ M) = Some (ss, h @ A @ M @ S)"
    by (simp add: ss_def S_def)
  have 4: "string_of_bytes (h @ A @ M @ S) sm =
             Some (if mb = [] then empty_str
                   else \<lparr>sptr = Some (length (h @ A @ M @ S)), soff = 0, slen = length mb\<rparr>,
                   h @ A @ M @ S @ M)"
  proof (cases "mb = []")
    case True
    then show ?thesis by (simp add: sm_def M_def string_of_bytes_nil)
  next
    case False
    then have "(h @ A @ M @ S) ! length (h @ A) = Bytes mb"
      by (simp add: M_def nth_append)
    moreover have "length (h @ A) < length (h @ A @ M @ S)" using False by (simp add: M_def)
    ultimately show ?thesis
      using False string_of_bytes_whole [of "length (h @ A)" "h @ A @ M @ S" mb]
      by (simp add: sm_def M_def)
  qed
  have 5: "string_of_bytes (h @ A @ M @ S @ M) ss =
             Some (if sb = [] then empty_str
                   else \<lparr>sptr = Some (length (h @ A @ M @ S @ M)), soff = 0, slen = length sb\<rparr>,
                   h @ A @ M @ S @ M @ S)"
  proof (cases "sb = []")
    case True
    then show ?thesis by (simp add: ss_def S_def string_of_bytes_nil)
  next
    case False
    then have "(h @ A @ M @ S @ M) ! length (h @ A @ M) = Bytes sb"
      using nth_append_length [of "h @ A @ M" "Bytes sb" "M"] by (simp add: S_def)
    moreover have "length (h @ A @ M) < length (h @ A @ M @ S @ M)"
      using False by (simp add: S_def)
    ultimately show ?thesis
      using False string_of_bytes_whole [of "length (h @ A @ M)" "h @ A @ M @ S @ M" sb]
      by (simp add: ss_def S_def)
  qed
  have "Clone cv e h =
     Some (\<lparr>Message = (if mb = [] then empty_str
                   else \<lparr>sptr = Some (length (h @ A @ M @ S)), soff = 0, slen = length mb\<rparr>),
            Source = (if sb = [] then empty_str
                   else \<lparr>sptr = Some (length (h @ A @ M @ S @ M)), soff = 0, slen = length sb\<rparr>),
            Args = sa, Time = Time e, Debug = Debug e\<rparr>,
           h @ A @ M @ S @ M @ S)"
    unfolding Clone_def using 1 2 3 4 5 by simp
  moreover have "length A = (if cs = [] then 0 else 1)" by (simp add: A_def)
  moreover have "length M = (if mb = [] then 0 else 1)" by (simp add: M_def)
  moreover have "length S = (if sb = [] then 0 else 1)" by (simp add: S_def)
  ultimately show ?thesis
    unfolding A_def [symmetric] M_def [symmetric] S_def [symmetric] sa_def [symmetric]
    by (simp add: add.assoc)
qed


subsection \<open>Writes that do not reach a reader\<close>










lemma load_Pairs_update_Bytes:
  "load_Bytes H p = Some bs \<Longrightarrow> load_Pairs (H[p := Bytes bs']) q = load_Pairs H q"
  by (cases "p = q") (auto simp: load_Bytes_def load_Pairs_def split: if_splits obj.splits)




lemma slice_Args_update_Bytes:
  "load_Bytes H p = Some bs \<Longrightarrow> slice_Args (H[p := Bytes bs']) s = slice_Args H s"
  by (cases "ptr s") (simp_all add: slice_Args_def load_Pairs_update_Bytes)



lemma view_None_append: "view h e \<noteq> None \<Longrightarrow> view (h @ ext) e = view h e"
  using view_append by fastforce

lemma read_names_clone:
  "read_names h cs = Some ns \<Longrightarrow> read_names h (map (clone_Arg cv) cs) = Some (map (clone_Arg cv) ns)"
  by (induction cs arbitrary: ns) (auto simp: clone_Arg_def split: Option.bind_splits)

lemma read_names_length: "read_names h cs = Some ns \<Longrightarrow> length ns = length cs"
  by (induction cs arbitrary: ns) (auto split: Option.bind_splits)


subsection \<open>What Clone returns\<close>


lemma str_bytes_at:
  "p < length H \<Longrightarrow> H ! p = Bytes bs \<Longrightarrow>
     str_bytes H \<lparr>sptr = Some p, soff = 0, slen = length bs\<rparr> = Some bs"
  by (simp add: str_bytes_def load_Bytes_def)

lemma slice_Args_at:
  "p < length H \<Longrightarrow> H ! p = Pairs cs \<Longrightarrow>
     slice_Args H \<lparr>ptr = Some p, off = 0, len = length cs, cap = length cs\<rparr> = Some cs"
  by (simp add: slice_Args_def load_Pairs_def)

lemma Clone_facts:
  assumes m: "str_bytes h (Message e) = Some mb"
      and s: "str_bytes h (Source e) = Some sb"
      and a: "slice_Args h (Args e) = Some cs"
  obtains e' ext where
    "Clone cv e h = Some (e', h @ ext)"
    "Time e' = Time e" "Debug e' = Debug e"
    "str_bytes (h @ ext) (Message e') = Some mb"
    "str_bytes (h @ ext) (Source e') = Some sb"
    "slice_Args (h @ ext) (Args e') = Some (map (clone_Arg cv) cs)"
    "mb = [] \<longrightarrow> Message e' = empty_str"
    "sb = [] \<longrightarrow> Source e' = empty_str"
    "cs = [] \<longrightarrow> Args e' = nil_slice"
    "mb \<noteq> [] \<longrightarrow> (\<exists>p. sptr (Message e') = Some p \<and> length h \<le> p \<and> p < length (h @ ext))"
    "sb \<noteq> [] \<longrightarrow> (\<exists>p. sptr (Source e') = Some p \<and> length h \<le> p \<and> p < length (h @ ext))"
    "cs \<noteq> [] \<longrightarrow> Args e' = \<lparr>ptr = Some (length h), off = 0, len = length cs, cap = length cs\<rparr>"
    "mb \<noteq> [] \<longrightarrow> sptr (Message e') \<noteq> sptr (Source e')"
proof -
  define A where "A = (if cs = [] then [] else [Pairs (map (clone_Arg cv) cs)])"
  define M :: "'a obj list" where "M = (if mb = [] then [] else [Bytes mb])"
  define S :: "'a obj list" where "S = (if sb = [] then [] else [Bytes sb])"
  define msg where "msg = (if mb = [] then empty_str
       else \<lparr>sptr = Some (length (h @ A @ M @ S)), soff = 0, slen = length mb\<rparr>)"
  define src where "src = (if sb = [] then empty_str
       else \<lparr>sptr = Some (length (h @ A @ M @ S @ M)), soff = 0, slen = length sb\<rparr>)"
  define sa where "sa = (if cs = [] then nil_slice
       else \<lparr>ptr = Some (length h), off = 0, len = length cs, cap = length cs\<rparr>)"
  define e' where "e' = \<lparr>Message = msg, Source = src, Args = sa, Time = Time e, Debug = Debug e\<rparr>"
  define ext where "ext = A @ M @ S @ M @ S"
  have lens: "length A = (if cs = [] then 0 else 1)" "length M = (if mb = [] then 0 else 1)"
       "length S = (if sb = [] then 0 else 1)"
    by (simp_all add: A_def M_def S_def)
  have c: "Clone cv e h = Some (e', h @ ext)"
    using Clone_closed_form [OF m s a, of cv]
    unfolding A_def [symmetric] M_def [symmetric] S_def [symmetric] lens [symmetric]
    by (simp add: e'_def msg_def src_def sa_def ext_def add.assoc)
  have 4: "str_bytes (h @ ext) (Message e') = Some mb"
  proof (cases "mb = []")
    case True
    then show ?thesis by (simp add: e'_def msg_def empty_str_def str_bytes_def)
  next
    case False
    have "(h @ ext) ! length (h @ A @ M @ S) = Bytes mb"
      using False nth_append_length [of "h @ A @ M @ S" "Bytes mb" S]
      by (simp add: ext_def M_def)
    moreover have "length (h @ A @ M @ S) < length (h @ ext)"
      using False by (simp add: ext_def M_def)
    ultimately show ?thesis
      using False str_bytes_at [of "length (h @ A @ M @ S)" "h @ ext" mb]
      by (simp add: e'_def msg_def)
  qed
  have 5: "str_bytes (h @ ext) (Source e') = Some sb"
  proof (cases "sb = []")
    case True
    then show ?thesis by (simp add: e'_def src_def empty_str_def str_bytes_def)
  next
    case False
    have "(h @ ext) ! length (h @ A @ M @ S @ M) = Bytes sb"
      using False nth_append_length [of "h @ A @ M @ S @ M" "Bytes sb" "[]"]
      by (simp add: ext_def S_def)
    moreover have "length (h @ A @ M @ S @ M) < length (h @ ext)"
      using False by (simp add: ext_def S_def)
    ultimately show ?thesis
      using False str_bytes_at [of "length (h @ A @ M @ S @ M)" "h @ ext" sb]
      by (simp add: e'_def src_def)
  qed
  have 6: "slice_Args (h @ ext) (Args e') = Some (map (clone_Arg cv) cs)"
  proof (cases "cs = []")
    case True
    then show ?thesis by (simp add: e'_def sa_def nil_slice_def slice_Args_def)
  next
    case False
    have "(h @ ext) ! length h = Pairs (map (clone_Arg cv) cs)"
      using False by (simp add: ext_def A_def)
    moreover have "length h < length (h @ ext)"
      using False by (simp add: ext_def A_def)
    ultimately show ?thesis
      using False slice_Args_at [of "length h" "h @ ext" "map (clone_Arg cv) cs"]
      by (simp add: e'_def sa_def)
  qed
  have 10: "mb \<noteq> [] \<longrightarrow> (\<exists>p. sptr (Message e') = Some p \<and> length h \<le> p \<and> p < length (h @ ext))"
    by (simp add: e'_def msg_def ext_def M_def)
  have 11: "sb \<noteq> [] \<longrightarrow> (\<exists>p. sptr (Source e') = Some p \<and> length h \<le> p \<and> p < length (h @ ext))"
    by (simp add: e'_def src_def ext_def S_def)
  have 13: "mb \<noteq> [] \<longrightarrow> sptr (Message e') \<noteq> sptr (Source e')"
    by (simp add: e'_def msg_def src_def empty_str_def M_def)
  show thesis
  proof (rule that [of e' ext])
    show "Clone cv e h = Some (e', h @ ext)" by (rule c)
    show "Time e' = Time e" "Debug e' = Debug e" by (simp_all add: e'_def)
    show "str_bytes (h @ ext) (Message e') = Some mb" by (rule 4)
    show "str_bytes (h @ ext) (Source e') = Some sb" by (rule 5)
    show "slice_Args (h @ ext) (Args e') = Some (map (clone_Arg cv) cs)" by (rule 6)
    show "mb = [] \<longrightarrow> Message e' = empty_str" by (simp add: e'_def msg_def)
    show "sb = [] \<longrightarrow> Source e' = empty_str" by (simp add: e'_def src_def)
    show "cs = [] \<longrightarrow> Args e' = nil_slice" by (simp add: e'_def sa_def)
    show "mb \<noteq> [] \<longrightarrow> (\<exists>p. sptr (Message e') = Some p \<and> length h \<le> p \<and> p < length (h @ ext))"
      by (rule 10)
    show "sb \<noteq> [] \<longrightarrow> (\<exists>p. sptr (Source e') = Some p \<and> length h \<le> p \<and> p < length (h @ ext))"
      by (rule 11)
    show "cs \<noteq> [] \<longrightarrow> Args e' = \<lparr>ptr = Some (length h), off = 0, len = length cs, cap = length cs\<rparr>"
      by (simp add: e'_def sa_def)
    show "mb \<noteq> [] \<longrightarrow> sptr (Message e') \<noteq> sptr (Source e')" by (rule 13)
  qed
qed


lemma clone_Arg_id: "clone_Arg (\<lambda>x. x) c = c"
  by (cases c) (simp add: clone_Arg_def)

lemma map_clone_Arg_id: "map (clone_Arg (\<lambda>x. x)) cs = cs"
  by (induction cs) (simp_all add: clone_Arg_id)

lemma valid_EventD:
  assumes "valid_Event h e"
  obtains mb sb cs ns where
    "str_bytes h (Message e) = Some mb" "str_bytes h (Source e) = Some sb"
    "slice_Args h (Args e) = Some cs" "read_names h cs = Some ns"
    "view h e = Some \<lparr>Message = mb, Source = sb, Args = ns, Time = Time e, Debug = Debug e\<rparr>"
  using assms
  by (auto simp: valid_Event_def view_def view_Args_def split: Option.bind_splits)

text \<open>
  Claim C6.  For a valid event, \<open>Clone\<close> returns an event that is a copy: read out of
  the heap after the call, its message and source are the texts of the original, its
  time and debug flag are those of the original, and its argument list has the same
  length with, at every index, the name of the original entry and the value that
  \<open>cloneValue\<close> returns for the original value (so the same value wherever \<open>cloneValue\<close>
  returns its argument).  The original reads as before.
\<close>

theorem Clone_is_copy:
  assumes "valid_Event h e"
  shows "\<exists>e' h' v. Clone cloneValue e h = Some (e', h')
           \<and> view h e = Some v \<and> view h' e = Some v
           \<and> view h' e' = Some (v\<lparr>Args := map (clone_Arg cloneValue) (Args v)\<rparr>)
           \<and> ((\<forall>x. cloneValue x = x) \<longrightarrow> view h' e' = Some v)
           \<and> Time e' = Time e \<and> Debug e' = Debug e
           \<and> slen (Message e') = slen (Message e) \<and> slen (Source e') = slen (Source e)
           \<and> len (Args e') = len (Args e)
           \<and> (\<forall>i < len (Args e). \<exists>c c'.
                  index_Args h (Args e) i = Some c \<and> index_Args h' (Args e') i = Some c'
                  \<and> Name c' = Name c \<and> Value c' = cloneValue (Value c))"
proof -
  from assms obtain mb sb cs ns where
    m: "str_bytes h (Message e) = Some mb" and s: "str_bytes h (Source e) = Some sb" and
    a: "slice_Args h (Args e) = Some cs" and n: "read_names h cs = Some ns" and
    v: "view h e = Some \<lparr>Message = mb, Source = sb, Args = ns, Time = Time e, Debug = Debug e\<rparr>"
    by (rule valid_EventD)
  let ?v = "\<lparr>Message = mb, Source = sb, Args = ns, Time = Time e, Debug = Debug e\<rparr>"
  from m s a obtain e' ext where
    c: "Clone cloneValue e h = Some (e', h @ ext)" and
    t: "Time e' = Time e" and d: "Debug e' = Debug e" and
    m': "str_bytes (h @ ext) (Message e') = Some mb" and
    s': "str_bytes (h @ ext) (Source e') = Some sb" and
    a': "slice_Args (h @ ext) (Args e') = Some (map (clone_Arg cloneValue) cs)"
    by (rule Clone_facts [where cv = cloneValue])
  have v1: "view (h @ ext) e = Some ?v" using v by (rule view_append)
  have "read_names (h @ ext) (map (clone_Arg cloneValue) cs) = Some (map (clone_Arg cloneValue) ns)"
    using n by (intro read_names_clone read_names_append)
  then have v2: "view (h @ ext) e' = Some (?v\<lparr>Args := map (clone_Arg cloneValue) (Args ?v)\<rparr>)"
    using m' s' a' t d by (simp add: view_def view_Args_def)
  have v3: "(\<forall>x. cloneValue x = x) \<longrightarrow> view (h @ ext) e' = Some ?v"
  proof
    assume "\<forall>x. cloneValue x = x"
    then have "cloneValue = (\<lambda>x. x)" by (simp add: fun_eq_iff)
    with v2 show "view (h @ ext) e' = Some ?v" by (simp add: map_clone_Arg_id)
  qed
  have l1: "slen (Message e') = slen (Message e)"
    using m m' by (simp add: str_bytes_length [symmetric])
  have l2: "slen (Source e') = slen (Source e)"
    using s s' by (simp add: str_bytes_length [symmetric])
  have l3: "len (Args e') = len (Args e)"
    using slice_Args_length [OF a] slice_Args_length [OF a'] by simp
  have ix: "\<forall>i < len (Args e). \<exists>c c'.
                  index_Args h (Args e) i = Some c \<and> index_Args (h @ ext) (Args e') i = Some c'
                  \<and> Name c' = Name c \<and> Value c' = cloneValue (Value c)"
  proof (intro allI impI)
    fix i assume i: "i < len (Args e)"
    then have ic: "i < length cs" using slice_Args_length [OF a] by simp
    have "index_Args h (Args e) i = Some (cs ! i)"
      using a i by (simp add: index_Args_def)
    moreover have "index_Args (h @ ext) (Args e') i = Some (clone_Arg cloneValue (cs ! i))"
      using a' i ic l3 by (simp add: index_Args_def)
    ultimately show "\<exists>c c'.
                  index_Args h (Args e) i = Some c \<and> index_Args (h @ ext) (Args e') i = Some c'
                  \<and> Name c' = Name c \<and> Value c' = cloneValue (Value c)"
      by (simp add: clone_Arg_def)
  qed
  from c v v1 v2 v3 t d l1 l2 l3 ix show ?thesis by blast
qed

theorem Clone_is_copy_witness:
  "valid_Event ex_heap ex_event \<and>
   (\<exists>e' h'. Clone (map_option Suc) ex_event ex_heap = Some (e', h')
      \<and> view h' ex_event = Some \<lparr>Message = ''hello'', Source = ''world'',
            Args = [\<lparr>Name = ''key'', Value = Some 7\<rparr>, \<lparr>Name = ''world'', Value = None\<rparr>],
            Time = 42, Debug = True\<rparr>
      \<and> view h' e' = Some \<lparr>Message = ''hello'', Source = ''world'',
            Args = [\<lparr>Name = ''key'', Value = Some 8\<rparr>, \<lparr>Name = ''world'', Value = None\<rparr>],
            Time = 42, Debug = True\<rparr>)"
proof -
  have v: "valid_Event ex_heap ex_event"
    by (simp add: valid_Event_def valid_slice_def view_def view_Args_def slice_Args_def
        str_bytes_def load_Bytes_def load_Pairs_def ex_heap_def ex_event_def)
  have w: "view ex_heap ex_event = Some \<lparr>Message = ''hello'', Source = ''world'',
     Args = [\<lparr>Name = ''key'', Value = Some 7\<rparr>, \<lparr>Name = ''world'', Value = None\<rparr>],
     Time = 42, Debug = True\<rparr>"
    by (simp add: view_def view_Args_def slice_Args_def
        str_bytes_def load_Bytes_def load_Pairs_def ex_heap_def ex_event_def)
  from Clone_is_copy [OF v, of "map_option Suc"] obtain e' h' u where
    "Clone (map_option Suc) ex_event ex_heap = Some (e', h')"
    "view ex_heap ex_event = Some u" "view h' ex_event = Some u"
    "view h' e' = Some (u\<lparr>Args := map (clone_Arg (map_option Suc)) (Args u)\<rparr>)"
    by (elim exE conjE)
  with w v show ?thesis by (auto simp: clone_Arg_def)
qed










lemma Clone_lengths:
  assumes "valid_Event h e"
  shows "\<exists>e' h'. Clone cloneValue e h = Some (e', h')
           \<and> (slen (Message e) = 0 \<longrightarrow> Message e' = empty_str)
           \<and> (slen (Source e) = 0 \<longrightarrow> Source e' = empty_str)
           \<and> (len (Args e) = 0 \<longrightarrow> Args e' = nil_slice)
           \<and> slen (Message e') = slen (Message e)
           \<and> slen (Source e') = slen (Source e)
           \<and> len (Args e') = len (Args e)"
proof -
  from assms obtain mb sb cs ns where
    m: "str_bytes h (Message e) = Some mb" and s: "str_bytes h (Source e) = Some sb" and
    a: "slice_Args h (Args e) = Some cs"
    by (rule valid_EventD)
  from m s a obtain e' ext where
    c: "Clone cloneValue e h = Some (e', h @ ext)" and
    "Time e' = Time e" and "Debug e' = Debug e" and
    m': "str_bytes (h @ ext) (Message e') = Some mb" and
    s': "str_bytes (h @ ext) (Source e') = Some sb" and
    a': "slice_Args (h @ ext) (Args e') = Some (map (clone_Arg cloneValue) cs)" and
    zm: "mb = [] \<longrightarrow> Message e' = empty_str" and
    zs: "sb = [] \<longrightarrow> Source e' = empty_str" and
    za: "cs = [] \<longrightarrow> Args e' = nil_slice"
    by (rule Clone_facts [where cv = cloneValue])
  have lm: "length mb = slen (Message e)" using m by (rule str_bytes_length)
  have ls: "length sb = slen (Source e)" using s by (rule str_bytes_length)
  have la: "length cs = len (Args e)" using a by (rule slice_Args_length)
  have 1: "slen (Message e') = slen (Message e)"
    using str_bytes_length [OF m'] lm by simp
  have 2: "slen (Source e') = slen (Source e)"
    using str_bytes_length [OF s'] ls by simp
  have 3: "len (Args e') = len (Args e)"
    using slice_Args_length [OF a'] la by simp
  have 4: "slen (Message e) = 0 \<longrightarrow> Message e' = empty_str" using zm lm by auto
  have 5: "slen (Source e) = 0 \<longrightarrow> Source e' = empty_str" using zs ls by auto
  have 6: "len (Args e) = 0 \<longrightarrow> Args e' = nil_slice" using za la by auto
  from c 4 5 6 1 2 3 show ?thesis
    by (intro exI [of _ e'] exI [of _ "h @ ext"] conjI)
qed

text \<open>
  Claim C7.  Cloning an event whose message, source and argument list are all empty
  allocates nothing and returns the zero value in all three fields: the empty string
  twice and the nil slice, whatever headers the original used for its empty fields, and
  read out of the heap all three are empty.  The convention is the same field by field
  for every valid event: an empty field becomes the zero value, and a field of the clone
  is empty exactly when the field of the original is.
\<close>

theorem Clone_empty:
  "(slen (Message e) = 0 \<and> slen (Source e) = 0 \<and> len (Args e) = 0 \<longrightarrow>
      Clone cloneValue e h =
        Some (\<lparr>Message = empty_str, Source = empty_str, Args = nil_slice,
               Time = Time e, Debug = Debug e\<rparr>, h)
      \<and> view h \<lparr>Message = empty_str, Source = empty_str, Args = nil_slice,
                  Time = Time e, Debug = Debug e\<rparr>
          = Some \<lparr>Message = [], Source = [], Args = [], Time = Time e, Debug = Debug e\<rparr>)
   \<and> (valid_Event h e \<longrightarrow>
         (\<exists>e' h'. Clone cloneValue e h = Some (e', h')
            \<and> (slen (Message e) = 0 \<longrightarrow> Message e' = empty_str)
            \<and> (slen (Source e) = 0 \<longrightarrow> Source e' = empty_str)
            \<and> (len (Args e) = 0 \<longrightarrow> Args e' = nil_slice)
            \<and> (slen (Message e') = 0 \<longleftrightarrow> slen (Message e) = 0)
            \<and> (slen (Source e') = 0 \<longleftrightarrow> slen (Source e) = 0)
            \<and> (len (Args e') = 0 \<longleftrightarrow> len (Args e) = 0)))"
proof (intro conjI impI)
  assume z: "slen (Message e) = 0 \<and> slen (Source e) = 0 \<and> len (Args e) = 0"
  then show "Clone cloneValue e h =
        Some (\<lparr>Message = empty_str, Source = empty_str, Args = nil_slice,
               Time = Time e, Debug = Debug e\<rparr>, h)"
    by (simp add: Clone_def Clone_Args_def Clone_bytes_def string_of_bytes_nil)
  show "view h \<lparr>Message = empty_str, Source = empty_str, Args = nil_slice,
                  Time = Time e, Debug = Debug e\<rparr>
          = Some \<lparr>Message = [], Source = [], Args = [], Time = Time e, Debug = Debug e\<rparr>"
    by (simp add: view_def view_Args_def slice_Args_def str_bytes_def empty_str_def nil_slice_def)
next
  assume "valid_Event h e"
  from Clone_lengths [OF this, of cloneValue] obtain e' h' where
    c: "Clone cloneValue e h = Some (e', h')" and
    z: "slen (Message e) = 0 \<longrightarrow> Message e' = empty_str"
       "slen (Source e) = 0 \<longrightarrow> Source e' = empty_str"
       "len (Args e) = 0 \<longrightarrow> Args e' = nil_slice" and
    l: "slen (Message e') = slen (Message e)" "slen (Source e') = slen (Source e)"
       "len (Args e') = len (Args e)"
    by (elim exE conjE)
  from l have "(slen (Message e') = 0 \<longleftrightarrow> slen (Message e) = 0)"
      "(slen (Source e') = 0 \<longleftrightarrow> slen (Source e) = 0)"
      "(len (Args e') = 0 \<longleftrightarrow> len (Args e) = 0)"
    by simp_all
  with c z
  show "\<exists>e' h'. Clone cloneValue e h = Some (e', h')
            \<and> (slen (Message e) = 0 \<longrightarrow> Message e' = empty_str)
            \<and> (slen (Source e) = 0 \<longrightarrow> Source e' = empty_str)
            \<and> (len (Args e) = 0 \<longrightarrow> Args e' = nil_slice)
            \<and> (slen (Message e') = 0 \<longleftrightarrow> slen (Message e) = 0)
            \<and> (slen (Source e') = 0 \<longleftrightarrow> slen (Source e) = 0)
            \<and> (len (Args e') = 0 \<longleftrightarrow> len (Args e) = 0)"
    by (intro exI [of _ e'] exI [of _ h'] conjI)
qed

theorem Clone_empty_witness:
  "slen (Message ex_empty) = 0 \<and> slen (Source ex_empty) = 0 \<and> len (Args ex_empty) = 0
   \<and> Message ex_empty \<noteq> empty_str \<and> Args ex_empty \<noteq> nil_slice
   \<and> Clone (map_option Suc) ex_empty ex_heap =
        Some (\<lparr>Message = empty_str, Source = empty_str, Args = nil_slice,
               Time = 7, Debug = False\<rparr>, ex_heap)
   \<and> valid_Event ex_heap ex_event
   \<and> (\<exists>e' h'. Clone (map_option Suc) ex_event ex_heap = Some (e', h')
         \<and> slen (Message e') \<noteq> 0 \<and> slen (Source e') \<noteq> 0 \<and> len (Args e') \<noteq> 0)"
proof -
  have z: "slen (Message ex_empty) = 0 \<and> slen (Source ex_empty) = 0 \<and> len (Args ex_empty) = 0"
    by (simp add: ex_empty_def empty_str_def)
  have n: "Message ex_empty \<noteq> empty_str \<and> Args ex_empty \<noteq> nil_slice"
    by (simp add: ex_empty_def empty_str_def nil_slice_def)
  have c: "Clone (map_option Suc) ex_empty ex_heap =
        Some (\<lparr>Message = empty_str, Source = empty_str, Args = nil_slice,
               Time = 7, Debug = False\<rparr>, ex_heap)"
    using Clone_empty [of ex_empty "map_option Suc" ex_heap, THEN conjunct1] z
    by (simp add: ex_empty_def)
  have v: "valid_Event ex_heap ex_event"
    by (simp add: valid_Event_def valid_slice_def view_def view_Args_def slice_Args_def
        str_bytes_def load_Bytes_def load_Pairs_def ex_heap_def ex_event_def)
  have "\<exists>e' h'. Clone (map_option Suc) ex_event ex_heap = Some (e', h')
         \<and> slen (Message e') \<noteq> 0 \<and> slen (Source e') \<noteq> 0 \<and> len (Args e') \<noteq> 0"
    using Clone_empty [of ex_event "map_option Suc" ex_heap, THEN conjunct2, rule_format, OF v]
    by (auto simp: ex_event_def)
  with z n c v show ?thesis by blast
qed


section \<open>No operation fails\<close>



end
